theory Spec2Isabelle
  imports Main
begin

section \<open>Python strings\<close>

text \<open>
  A Python \<open>str\<close> is a sequence of Unicode code points, so a string is modelled as a list
  of code points (natural numbers); \<open>u\<close> reads an ASCII literal as such a list.
\<close>

type_synonym str = "nat list"

definition u :: "string \<Rightarrow> str" where
  "u s = map of_char s"

text \<open>
  \<open>str.isspace\<close> on one code point; the same set is what \<open>\s\<close> matches in a \<open>str\<close>
  pattern and what \<open>str.strip()\<close> and \<open>str.split()\<close> remove.
\<close>

definition isspace :: "nat \<Rightarrow> bool" where
  "isspace c = ((9 \<le> c \<and> c \<le> 13) \<or> (28 \<le> c \<and> c \<le> 32) \<or> c = 133 \<or> c = 160
     \<or> c = 5760 \<or> (8192 \<le> c \<and> c \<le> 8202) \<or> c = 8232 \<or> c = 8233 \<or> c = 8239
     \<or> c = 8287 \<or> c = 12288)"

text \<open>The character class \<open>[A-Z]\<close>.\<close>

definition is_upper :: "nat \<Rightarrow> bool" where
  "is_upper c = (65 \<le> c \<and> c \<le> 90)"

text \<open>The character class \<open>[A-Z\s]\<close>.\<close>

definition in_class :: "nat \<Rightarrow> bool" where
  "in_class c = (is_upper c \<or> isspace c)"

text \<open>\<open>s.strip()\<close>: remove leading and trailing whitespace.\<close>

definition strip :: "str \<Rightarrow> str" where
  "strip s = rev (dropWhile isspace (rev (dropWhile isspace s)))"

text \<open>
  \<open>s.split()\<close> without arguments: the maximal runs of non-whitespace characters, in
  order. The first argument is the word being read, reversed.
\<close>

fun split_ws :: "str \<Rightarrow> str \<Rightarrow> str list" where
  "split_ws w [] = (if w = [] then [] else [rev w])"
| "split_ws w (c # cs) =
     (if isspace c then (if w = [] then split_ws [] cs else rev w # split_ws [] cs)
      else split_ws (c # w) cs)"

definition py_split :: "str \<Rightarrow> str list" where
  "py_split s = split_ws [] s"

text \<open>
  \<open>s.split("\n\n")\<close>: cut at each occurrence of two consecutive newlines, scanning from
  the left. The first argument is the piece being read, reversed.
\<close>

fun split_blank :: "str \<Rightarrow> str \<Rightarrow> str list" where
  "split_blank acc (a # b # cs) =
     (if a = 10 \<and> b = 10 then rev acc # split_blank [] cs
      else split_blank (a # acc) (b # cs))"
| "split_blank acc [a] = [rev (a # acc)]"
| "split_blank acc [] = [rev acc]"

text \<open>\<open>sep.join(xs)\<close>.\<close>

fun join :: "str \<Rightarrow> str list \<Rightarrow> str" where
  "join sep [] = []"
| "join sep [x] = x"
| "join sep (x # y # ys) = x @ sep @ join sep (y # ys)"

text \<open>The decimal numeral of a natural number, as \<open>str(n)\<close> and an f-string print it.\<close>

fun digits :: "nat \<Rightarrow> str" where
  "digits n = (if n < 10 then [48 + n] else digits (n div 10) @ [48 + n mod 10])"

declare digits.simps [simp del]

text \<open>
  \<open>needle in hay\<close> for strings, and the lower-casing of the ASCII letters. Python's
  \<open>str.lower()\<close> produces the letters of the ASCII words compared here only from
  the ASCII capitals, so the rest of its table is left out.
\<close>

fun contains :: "str \<Rightarrow> str \<Rightarrow> bool" where
  "contains needle [] = (needle = [])"
| "contains needle (c # cs) =
     (take (length needle) (c # cs) = needle \<or> contains needle cs)"

definition lower :: "str \<Rightarrow> str" where
  "lower s = map (\<lambda>c. if is_upper c then c + 32 else c) s"

section \<open>The heading pattern\<close>

text \<open>
  \<open>pattern = re.compile(r'(^[A-Z][A-Z\s]{2,}:?$)', re.MULTILINE)\<close>.

  Under \<open>re.MULTILINE\<close>, \<open>$\<close> holds at the end of the string and just before a newline,
  and \<open>^\<close> holds at the start of the string and just after a newline.
\<close>

definition at_eol :: "str \<Rightarrow> bool" where
  "at_eol s = (case s of [] \<Rightarrow> True | c # _ \<Rightarrow> c = 10)"

text \<open>
  \<open>:?$\<close> at the start of \<open>s\<close>: the optional colon is greedy, so it is taken when the
  line ends after it; the result is the number of characters consumed.
\<close>

definition colon_eol :: "str \<Rightarrow> nat option" where
  "colon_eol s =
     (case s of
        [] \<Rightarrow> Some 0
      | c # t \<Rightarrow> if c = 58 \<and> at_eol t then Some 1 else if c = 10 then Some 0 else None)"

text \<open>
  \<open>[A-Z\s]{2,}:?$\<close> by backtracking: the repetition first takes \<open>k\<close> characters of
  the class and gives them back one at a time, down to two, until the rest of the pattern
  matches. The result is the length of the match.
\<close>

primrec greedy :: "str \<Rightarrow> nat \<Rightarrow> nat option" where
  "greedy s 0 = None"
| "greedy s (Suc k) =
     (if Suc k < 2 then None
      else (case colon_eol (drop (Suc k) s) of
              Some j \<Rightarrow> Some (Suc k + j)
            | None \<Rightarrow> greedy s k))"

text \<open>
  The pattern tried at the start of \<open>s\<close>, at a position where \<open>^\<close> holds: the length of
  the match, if there is one. \<open>pattern.match(s)\<close> is this, since \<open>^\<close> holds at offset 0.
\<close>

definition heading_match :: "str \<Rightarrow> nat option" where
  "heading_match s =
     (case s of
        [] \<Rightarrow> None
      | c # rest \<Rightarrow>
          if is_upper c
          then map_option Suc (greedy rest (length (takeWhile in_class rest)))
          else None)"

lemma greedy_ge: "greedy s k = Some n \<Longrightarrow> 2 \<le> n"
  by (induction k) (auto split: if_splits option.splits)

lemma colon_eol_le: "colon_eol t = Some j \<Longrightarrow> j \<le> length t"
  by (auto simp: colon_eol_def split: list.splits if_splits)

lemma greedy_le: "greedy s k = Some n \<Longrightarrow> k \<le> length s \<Longrightarrow> n \<le> length s"
proof (induction k)
  case 0
  then show ?case by simp
next
  case (Suc k)
  show ?case
  proof (cases "colon_eol (drop (Suc k) s)")
    case None
    with Suc show ?thesis by (auto split: if_splits)
  next
    case (Some j)
    then have "j \<le> length (drop (Suc k) s)"
      by (rule colon_eol_le)
    with Some Suc.prems show ?thesis by (auto split: if_splits)
  qed
qed

lemma heading_match_pos: "heading_match s = Some n \<Longrightarrow> 3 \<le> n"
  by (auto simp: heading_match_def split: list.splits if_splits dest: greedy_ge)

lemma heading_match_le: "heading_match s = Some n \<Longrightarrow> n \<le> length s"
proof -
  assume h: "heading_match s = Some n"
  then obtain c rest k where s: "s = c # rest"
    and g: "greedy rest (length (takeWhile in_class rest)) = Some k" and n: "n = Suc k"
    by (auto simp: heading_match_def split: list.splits if_splits)
  have "length (takeWhile in_class rest) \<le> length rest"
    by (rule length_takeWhile_le)
  with g have "k \<le> length rest" by (rule greedy_le)
  with s n show ?thesis by simp
qed

text \<open>
  \<open>pattern.split(text)\<close>: the pieces of the text between the matches, with the matched
  text (the pattern's one group) between them. The search tries the pattern at each
  position from the left and goes on after a match at its end. \<open>bol\<close> says whether \<open>^\<close>
  holds at the current position; \<open>acc\<close> is the piece being read, reversed.
\<close>

function re_split_from :: "bool \<Rightarrow> str \<Rightarrow> str \<Rightarrow> str list" where
  "re_split_from bol acc [] = [rev acc]"
| "re_split_from bol acc (c # cs) =
     (case (if bol then heading_match (c # cs) else None) of
        Some n \<Rightarrow>
          rev acc # take n (c # cs)
            # re_split_from (last (take n (c # cs)) = 10) [] (drop n (c # cs))
      | None \<Rightarrow> re_split_from (c = 10) (c # acc) cs)"
  by pat_completeness auto
termination
  by (relation "measure (\<lambda>(bol, acc, s). length s)")
     (auto split: if_splits dest: heading_match_pos)

declare re_split_from.simps(2) [simp del]

definition re_split :: "str \<Rightarrow> str list" where
  "re_split text = re_split_from True [] text"

section \<open>Section detection\<close>

text \<open>
  The loop of \<open>split_into_sections\<close> over the pieces: the state is the current heading,
  the buffer and the sections appended so far.
\<close>

fun section_loop :: "str \<Rightarrow> str \<Rightarrow> (str \<times> str) list \<Rightarrow> str list \<Rightarrow> (str \<times> str) list" where
  "section_loop current_heading buffer sections [] =
     (if buffer \<noteq> [] then sections @ [(current_heading, strip buffer)] else sections)"
| "section_loop current_heading buffer sections (p # ps) =
     (let part = strip p in
      if heading_match part \<noteq> None
      then section_loop part []
             (if buffer \<noteq> [] then sections @ [(current_heading, strip buffer)]
              else sections) ps
      else section_loop current_heading (buffer @ part @ [10]) sections ps)"

definition split_into_sections :: "str \<Rightarrow> (str \<times> str) list" where
  "split_into_sections text =
     (let splits = re_split text in
      if splits \<noteq> []
      then section_loop (u ''Introduction'') [] [] splits
      else map (\<lambda>(i, sec). (u ''Section '' @ digits (i + 1), strip sec))
             (enumerate 0 (split_blank [] text)))"

section \<open>Text extraction\<close>

datatype error = ValueError str | OtherError str

text \<open>
  The second component of \<open>os.path.splitext(path)\<close> (POSIX rules): the suffix from the
  last dot of the last path component, unless only dots precede it there.
\<close>

definition splitext_ext :: "str \<Rightarrow> str" where
  "splitext_ext path =
     (let name = rev (takeWhile (\<lambda>c. c \<noteq> 47) (rev path));
          body = dropWhile (\<lambda>c. c = 46) name
      in if 46 \<in> set body then 46 # rev (takeWhile (\<lambda>c. c \<noteq> 46) (rev name)) else [])"

text \<open>
  The three readers open files through PyMuPDF, python-docx and \<open>open\<close>; what they
  return or raise for a path is the file system's answer, a parameter of the model.
\<close>

record filesystem =
  read_pdf :: "str \<Rightarrow> error + str"
  read_docx :: "str \<Rightarrow> error + str"
  read_txt :: "str \<Rightarrow> error + str"

definition read_document :: "filesystem \<Rightarrow> str \<Rightarrow> error + str" where
  "read_document fs path =
     (let ext = lower (splitext_ext path) in
      if ext = u ''.pdf'' then read_pdf fs path
      else if ext \<in> set [u ''.docx'', u ''.doc''] then read_docx fs path
      else if ext = u ''.txt'' then read_txt fs path
      else Inl (ValueError (u ''Unsupported file type: '' @ ext)))"

section \<open>The generative model and the process state\<close>

text \<open>
  The two prompts are fixed templates around one embedded text, so a prompt is
  identified by its template and that text.
\<close>

datatype prompt = SectionPrompt str | FinalPrompt str

text \<open>
  What \<open>gemini_model.generate_content\<close> does inside the \<open>try\<close> block: it raises an
  exception \<open>e\<close> (the argument is \<open>str(e)\<close>; an exception raised while the response is
  read is the same case, caught by the same handler), or it returns a response, given
  by its candidates, each the list of the texts of its \<open>content.parts\<close>. A response
  without the attribute \<open>candidates\<close> is \<open>Returns []\<close>.
\<close>

datatype outcome = Raises str | Returns "str list list"

text \<open>
  The model is a parameter: its answer may depend on how many calls were made before,
  on the credential in force and on the prompt.
\<close>

type_synonym llm = "nat \<Rightarrow> nat \<Rightarrow> prompt \<Rightarrow> outcome"

text \<open>
  \<open>GEMINI_API_KEYS\<close>: three credentials. The strings themselves are secrets and are
  not repeated here; only their number and order matter.
\<close>

definition GEMINI_API_KEYS :: "str list" where
  "GEMINI_API_KEYS = [u ''key-1'', u ''key-2'', u ''key-3'']"

text \<open>
  The module's mutable state is \<open>current_key_index\<close> (the configured client follows it).
  \<open>calls\<close> and \<open>slept\<close> record what the process did: the generation calls made, each
  with the index of the credential in force and its prompt, oldest first, and the
  seconds spent in \<open>time.sleep\<close>.
\<close>

record globals =
  current_key_index :: nat
  calls :: "(nat \<times> prompt) list"
  slept :: int

definition initial :: globals where
  "initial = \<lparr>current_key_index = 0, calls = [], slept = 0\<rparr>"

definition generate_content :: "llm \<Rightarrow> prompt \<Rightarrow> globals \<Rightarrow> outcome \<times> globals" where
  "generate_content m p s =
     (m (length (calls s)) (current_key_index s) p,
      s\<lparr>calls := calls s @ [(current_key_index s, p)]\<rparr>)"

text \<open>
  The text read from a response: empty unless there is a first candidate with a first
  part, whose text is stripped.
\<close>

definition generated_text :: "str list list \<Rightarrow> str" where
  "generated_text candidates =
     (case candidates of
        [] \<Rightarrow> []
      | parts # _ \<Rightarrow> (case parts of [] \<Rightarrow> [] | t # _ \<Rightarrow> strip t))"

text \<open>\<open>time.sleep(delay)\<close> raises \<open>ValueError\<close> for a negative argument.\<close>

definition sleep :: "int \<Rightarrow> globals \<Rightarrow> error + globals" where
  "sleep delay s =
     (if delay < 0 then Inl (ValueError (u ''sleep length must be non-negative''))
      else Inr (s\<lparr>slept := slept s + delay\<rparr>))"

section \<open>Summarization with retry and fallback\<close>

definition switch_to_next_key :: "globals \<Rightarrow> bool \<times> globals" where
  "switch_to_next_key s =
     (if current_key_index s + 1 < length GEMINI_API_KEYS
      then (True, s\<lparr>current_key_index := current_key_index s + 1\<rparr>)
      else (False, s))"

text \<open>\<open>"quota" in str(e).lower()\<close>.\<close>

definition is_quota :: "str \<Rightarrow> bool" where
  "is_quota msg = contains (u ''quota'') (lower msg)"

text \<open>The string returned when the attempts are used up; it starts with U+26A0.\<close>

definition sentinel :: str where
  "sentinel = 9888 # u '' Summary failed after retries.''"

text \<open>
  The loop \<open>for attempt in range(retries)\<close> of \<open>summarize_section\<close>, by the number of
  attempts left. \<open>continue\<close> goes to the next attempt without sleeping; every other
  attempt that does not return sleeps first.
\<close>

fun attempts :: "llm \<Rightarrow> str \<Rightarrow> int \<Rightarrow> nat \<Rightarrow> globals \<Rightarrow> (error + str) \<times> globals" where
  "attempts m section_text delay 0 s = (Inr sentinel, s)"
| "attempts m section_text delay (Suc n) s =
     (case generate_content m (SectionPrompt section_text) s of
        (Returns r, s1) \<Rightarrow>
          (let summary = generated_text r in
           if summary \<noteq> [] then (Inr summary, s1)
           else (case sleep delay s1 of
                   Inl e \<Rightarrow> (Inl e, s1)
                 | Inr s2 \<Rightarrow> attempts m section_text delay n s2))
      | (Raises msg, s1) \<Rightarrow>
          (case (if is_quota msg then switch_to_next_key s1 else (False, s1)) of
             (True, s2) \<Rightarrow> attempts m section_text delay n s2
           | (False, s2) \<Rightarrow>
               (case sleep delay s2 of
                  Inl e \<Rightarrow> (Inl e, s2)
                | Inr s3 \<Rightarrow> attempts m section_text delay n s3)))"

text \<open>\<open>range(retries)\<close> has \<open>nat retries\<close> elements: none when \<open>retries\<close> is negative.\<close>

definition summarize_section ::
    "llm \<Rightarrow> str \<Rightarrow> int \<Rightarrow> int \<Rightarrow> globals \<Rightarrow> (error + str) \<times> globals" where
  "summarize_section m section_text retries delay s =
     (if length (py_split (strip section_text)) < 10 then (Inr [], s)
      else attempts m section_text delay (nat retries) s)"

text \<open>
  The loop of \<open>summarize_text_by_sections\<close> over the sections, appending one labeled
  block each; \<open>summarize_section\<close> is called with its defaults, three retries and five
  seconds.
\<close>

fun summarize_loop ::
    "llm \<Rightarrow> (str \<times> str) list \<Rightarrow> str list \<Rightarrow> globals \<Rightarrow> (error + str list) \<times> globals" where
  "summarize_loop m [] section_summaries s = (Inr section_summaries, s)"
| "summarize_loop m ((heading, content) # rest) section_summaries s =
     (case summarize_section m content 3 5 s of
        (Inl e, s1) \<Rightarrow> (Inl e, s1)
      | (Inr summary, s1) \<Rightarrow>
          summarize_loop m rest
            (section_summaries @ [u ''## '' @ heading @ [10] @ summary @ [10]]) s1)"

definition summarize_text_by_sections :: "llm \<Rightarrow> str \<Rightarrow> globals \<Rightarrow> (error + str) \<times> globals" where
  "summarize_text_by_sections m text s =
     (case summarize_loop m (split_into_sections text) [] s of
        (Inl e, s1) \<Rightarrow> (Inl e, s1)
      | (Inr section_summaries, s1) \<Rightarrow>
          (let merged_summary = join [10] section_summaries in
           case generate_content m (FinalPrompt merged_summary) s1 of
             (Returns r, s2) \<Rightarrow>
               (let final_summary = generated_text r in
                if final_summary \<noteq> [] then (Inr final_summary, s2)
                else (Inr merged_summary, s2))
           | (Raises msg, s2) \<Rightarrow> (Inr merged_summary, s2)))"

definition summarize_document ::
    "filesystem \<Rightarrow> llm \<Rightarrow> str \<Rightarrow> globals \<Rightarrow> (error + str) \<times> globals" where
  "summarize_document fs m path s =
     (case read_document fs path of
        Inl e \<Rightarrow> (Inl e, s)
      | Inr text \<Rightarrow> summarize_text_by_sections m text s)"

section \<open>Predicates and sample inputs\<close>

text \<open>The cursor points into the pool.\<close>

definition cursor_ok :: "globals \<Rightarrow> bool" where
  "cursor_ok s = (current_key_index s < length GEMINI_API_KEYS)"

text \<open>
  A list of cursor positions that never goes down and goes up by at most one from each
  element to the next.
\<close>

fun steps_by_one :: "nat list \<Rightarrow> bool" where
  "steps_by_one (a # b # rest) = (a \<le> b \<and> b \<le> a + 1 \<and> steps_by_one (b # rest))"
| "steps_by_one [a] = True"
| "steps_by_one [] = True"

text \<open>
  What is seen of the cursor between a state \<open>s\<close> and a later state \<open>s'\<close>: the
  credential index of each generation call logged since \<open>s\<close>, in order, and then the
  cursor of \<open>s'\<close>.
\<close>

definition trail :: "globals \<Rightarrow> globals \<Rightarrow> nat list" where
  "trail s s' = map fst (drop (length (calls s)) (calls s')) @ [current_key_index s']"

text \<open>
  \<open>follows s s'\<close>: the state \<open>s'\<close> can come after \<open>s\<close>. The cursor is still in the pool
  if it was, the log has only grown, and the trail starts at the cursor of \<open>s\<close> and moves
  by steps of at most one.
\<close>

definition follows :: "globals \<Rightarrow> globals \<Rightarrow> bool" where
  "follows s s' =
     ((cursor_ok s \<longrightarrow> cursor_ok s')
      \<and> take (length (calls s)) (calls s') = calls s
      \<and> hd (trail s s') = current_key_index s
      \<and> steps_by_one (trail s s'))"

text \<open>
  The labeled blocks as the specification words them, for the refinement of the loop:
  one block per section, in section order, \<open>"## "\<close>, the heading, a newline, the
  section's summary and a newline; each section is summarized in the state its
  predecessors left. (\<open>summarize_section\<close> with its defaults never raises, see
  \<open>summarize_section_no_raise\<close>, so the \<open>Inl\<close> branch is never taken.)
\<close>

fun labeled_blocks :: "llm \<Rightarrow> (str \<times> str) list \<Rightarrow> globals \<Rightarrow> str list \<times> globals" where
  "labeled_blocks m [] s = ([], s)"
| "labeled_blocks m ((heading, body) # rest) s =
     (case summarize_section m body 3 5 s of
        (r, s1) \<Rightarrow>
          (case labeled_blocks m rest s1 of
             (blocks, s2) \<Rightarrow>
               ((u ''## '' @ heading @ [10]
                   @ (case r of Inr summary \<Rightarrow> summary | Inl e \<Rightarrow> []) @ [10]) # blocks,
                s2)))"

text \<open>
  What the model answers to the final merge request: the request is made after all
  sections were summarized, with the joined blocks as the embedded text.
\<close>

definition merge_outcome :: "llm \<Rightarrow> str \<Rightarrow> globals \<Rightarrow> outcome" where
  "merge_outcome m text s =
     (case labeled_blocks m (split_into_sections text) s of
        (blocks, s1) \<Rightarrow> fst (generate_content m (FinalPrompt (join [10] blocks)) s1))"

definition ten_words :: str where
  "ten_words = u ''a b c d e f g h i j''"

text \<open>A model that rejects its first call for quota reasons and answers afterwards.\<close>

definition quota_once :: llm where
  "quota_once =
     (\<lambda>n k p. if n = 0 then Raises (u ''429 Quota exceeded'') else Returns [[u '' fine '']])"

text \<open>A model that summarizes every section and refuses the merge request.\<close>

definition merge_refuses :: llm where
  "merge_refuses =
     (\<lambda>n k p. case p of SectionPrompt t \<Rightarrow> Returns [[u ''S'']]
                      | FinalPrompt t \<Rightarrow> Raises (u ''503''))"

definition two_sections :: str where
  "two_sections = u ''SCOPE\<newline>a b c d e f g h i j''"

text \<open>
  The list \<open>pattern.split\<close> returns alternates: the text before the first match, the
  first match, the text after it, the second match, and so on. These are the texts and
  the matches (heading occurrences) of such a list, each in the order of the input.
\<close>

fun text_pieces :: "'a list \<Rightarrow> 'a list" where
  "text_pieces (t # h # rest) = t # text_pieces rest"
| "text_pieces [t] = [t]"
| "text_pieces [] = []"

fun heading_pieces :: "'a list \<Rightarrow> 'a list" where
  "heading_pieces (t # h # rest) = h # heading_pieces rest"
| "heading_pieces [t] = []"
| "heading_pieces [] = []"



definition two_paragraphs :: str where
  "two_paragraphs = u ''first part\<newline>\<newline>second part''"

text \<open>A file system whose text files hold ten words and that has no readable PDF or Word file.\<close>

definition sample_fs :: filesystem where
  "sample_fs =
     \<lparr>read_pdf = (\<lambda>p. Inl (OtherError (u ''cannot open''))),
      read_docx = (\<lambda>p. Inl (OtherError (u ''cannot open''))),
      read_txt = (\<lambda>p. Inr ten_words)\<rparr>"

section \<open>Evaluation rules\<close>

lemmas split_eval = split_into_sections_def re_split_def u_def re_split_from.simps(2)
  heading_match_def is_upper_def in_class_def isspace_def colon_eol_def at_eol_def strip_def

section \<open>The per-section summarizer\<close>

lemma sleep_ok: "0 \<le> delay \<Longrightarrow> sleep delay s = Inr (s\<lparr>slept := slept s + delay\<rparr>)"
  by (simp add: sleep_def)



lemma ten_words_count: "length (py_split (strip ten_words)) = 10"
  by (simp add: ten_words_def py_split_def strip_def u_def isspace_def)



text \<open>
  The bound on the delay is needed: with a negative delay the first \<open>time.sleep\<close>
  raises, and the exception leaves \<open>summarize_section\<close>.
\<close>

lemma negative_delay_raises:
  assumes "10 \<le> length (py_split (strip section_text))"
      and "\<forall>n k p. \<exists>r. m n k p = Returns r \<and> generated_text r = []"
      and "delay < 0" and "0 < retries"
  shows "fst (summarize_section m section_text retries delay s)
           = Inl (ValueError (u ''sleep length must be non-negative''))"
proof -
  obtain n where n: "nat retries = Suc n"
    using assms(4) by (cases "nat retries") auto
  obtain r where "m (length (calls s)) (current_key_index s) (SectionPrompt section_text)
      = Returns r" and "generated_text r = []"
    using assms(2) by blast
  then show ?thesis
    using assms(1,3) by (simp add: summarize_section_def n generate_content_def sleep_def)
qed

text \<open>
  Claim C9. A section body that has fewer than ten whitespace-delimited words after
  trimming yields the empty string, and the state is unchanged: no generation call is
  logged, whatever the model, the retry budget and the delay are.
\<close>

theorem short_section_skipped:
  assumes "length (py_split (strip section_text)) < 10"
  shows "summarize_section m section_text retries delay s = (Inr [], s)"
  using assms by (simp add: summarize_section_def)

theorem short_section_skipped_witness:
  "length (py_split (strip (u ''too short''))) < 10
   \<and> summarize_section (\<lambda>n k p. Raises []) (u ''too short'') 3 5 initial = (Inr [], initial)"
proof -
  have a: "length (py_split (strip (u ''too short''))) < 10"
    by (simp add: py_split_def strip_def u_def isspace_def)
  show ?thesis using a short_section_skipped [OF a] by simp
qed

text \<open>
  Claim C5. The pool is not exhausted, the first call of \<open>summarize_section\<close> raises an
  error whose message contains "quota", and the second call, made with the next
  credential, returns text that is not empty once stripped. Then the cursor has advanced
  by exactly one, nothing was slept, exactly two calls were made, and the model's
  (stripped) text is returned. A second attempt exists when the budget is at least two;
  the default is three.
\<close>

theorem quota_then_success:
  assumes words: "10 \<le> length (py_split (strip section_text))"
      and pool: "current_key_index s + 1 < length GEMINI_API_KEYS"
      and first: "m (length (calls s)) (current_key_index s) (SectionPrompt section_text) = Raises msg"
      and quota: "is_quota msg"
      and second: "m (length (calls s) + 1) (current_key_index s + 1) (SectionPrompt section_text) = Returns r"
      and nonempty: "generated_text r \<noteq> []"
      and budget: "2 \<le> retries"
  shows "summarize_section m section_text retries delay s =
           (Inr (generated_text r),
            s\<lparr>current_key_index := current_key_index s + 1,
              calls := calls s @ [(current_key_index s, SectionPrompt section_text),
                                  (current_key_index s + 1, SectionPrompt section_text)]\<rparr>)
         \<and> current_key_index (snd (summarize_section m section_text retries delay s))
             = current_key_index s + 1
         \<and> slept (snd (summarize_section m section_text retries delay s)) = slept s"
proof -
  from budget obtain n where n: "nat retries = Suc (Suc n)"
    by (cases "nat retries"; cases "nat retries - 1") auto
  show ?thesis
    using words pool first quota second nonempty
    by (simp add: summarize_section_def n generate_content_def switch_to_next_key_def)
qed

theorem quota_then_success_witness:
  "10 \<le> length (py_split (strip ten_words))
   \<and> current_key_index initial + 1 < length GEMINI_API_KEYS
   \<and> is_quota (u ''429 Quota exceeded'')
   \<and> generated_text [[u '' fine '']] \<noteq> []
   \<and> fst (summarize_section quota_once ten_words 3 5 initial) = Inr (u ''fine'')
   \<and> current_key_index (snd (summarize_section quota_once ten_words 3 5 initial)) = 1
   \<and> slept (snd (summarize_section quota_once ten_words 3 5 initial)) = 0"
proof -
  have a: "10 \<le> length (py_split (strip ten_words))"
    by (simp add: ten_words_count)
  have b: "current_key_index initial + 1 < length GEMINI_API_KEYS"
    by (simp add: initial_def GEMINI_API_KEYS_def)
  have c: "quota_once (length (calls initial)) (current_key_index initial)
             (SectionPrompt ten_words) = Raises (u ''429 Quota exceeded'')"
    by (simp add: quota_once_def initial_def)
  have d: "is_quota (u ''429 Quota exceeded'')"
    by (simp add: is_quota_def lower_def u_def is_upper_def)
  have e: "quota_once (length (calls initial) + 1) (current_key_index initial + 1)
             (SectionPrompt ten_words) = Returns [[u '' fine '']]"
    by (simp add: quota_once_def)
  have f: "generated_text [[u '' fine '']] = u ''fine''"
    by (simp add: generated_text_def strip_def u_def isspace_def)
  have g: "generated_text [[u '' fine '']] \<noteq> []"
    by (simp add: generated_text_def strip_def u_def isspace_def)
  have h: "(2::int) \<le> 3" by simp
  show ?thesis
    using a b d g
      quota_then_success [where m = quota_once and s = initial and section_text = ten_words
        and msg = "u ''429 Quota exceeded''" and r = "[[u '' fine '']]" and retries = 3
        and delay = 5, OF a b c d e g h]
    by (simp add: f initial_def)
qed

section \<open>The cursor along the pipeline\<close>

lemma steps_by_one_append:
  "steps_by_one (xs @ [y]) \<Longrightarrow> steps_by_one (y # ys) \<Longrightarrow> steps_by_one (xs @ y # ys)"
  by (induction xs rule: steps_by_one.induct) auto

lemma steps_by_one_lower: "steps_by_one (x # xs) \<Longrightarrow> y \<in> set xs \<Longrightarrow> x \<le> y"
  by (induction xs arbitrary: x) (auto intro: order_trans)

lemma steps_by_one_upper: "steps_by_one (xs @ [z]) \<Longrightarrow> y \<in> set xs \<Longrightarrow> y \<le> z"
proof (induction xs)
  case Nil
  then show ?case by simp
next
  case (Cons x xs)
  have tl: "steps_by_one (xs @ [z])"
    using Cons.prems(1) by (cases xs) auto
  show ?case
  proof (cases "y = x")
    case True
    have "x \<le> z" using Cons.prems(1) steps_by_one_lower [of x "xs @ [z]" z] by simp
    with True show ?thesis by simp
  next
    case False
    with Cons.prems(2) have "y \<in> set xs" by simp
    with tl show ?thesis by (rule Cons.IH)
  qed
qed

lemma follows_refl: "follows s s"
  by (simp add: follows_def trail_def)

lemma follows_trans:
  assumes a: "follows s s1" and b: "follows s1 s2"
  shows "follows s s2"
proof -
  obtain n1 where c1: "calls s1 = calls s @ n1"
    using a by (metis append_take_drop_id follows_def)
  obtain n2 where c2: "calls s2 = calls s1 @ n2"
    using b by (metis append_take_drop_id follows_def)
  have t1: "trail s s1 = map fst n1 @ [current_key_index s1]" by (simp add: trail_def c1)
  have t2: "trail s1 s2 = map fst n2 @ [current_key_index s2]" by (simp add: trail_def c2)
  have t: "trail s s2 = map fst n1 @ trail s1 s2" by (simp add: trail_def c1 c2)
  have h2: "hd (trail s1 s2) = current_key_index s1" using b by (simp add: follows_def)
  have ne: "trail s1 s2 \<noteq> []" by (simp add: t2)
  obtain ys where ys: "trail s1 s2 = current_key_index s1 # ys"
    using h2 ne by (metis hd_Cons_tl)
  have "steps_by_one (map fst n1 @ [current_key_index s1])"
    using a t1 by (simp add: follows_def)
  moreover have "steps_by_one (current_key_index s1 # ys)"
    using b ys by (simp add: follows_def)
  ultimately have st: "steps_by_one (trail s s2)"
    unfolding t ys by (rule steps_by_one_append)
  have hd: "hd (trail s s2) = current_key_index s"
  proof (cases n1)
    case Nil
    with a t1 t h2 show ?thesis by (simp add: follows_def)
  next
    case (Cons k ks)
    with a t1 t show ?thesis by (simp add: follows_def)
  qed
  show ?thesis
    using a b st hd by (simp add: follows_def c1 c2)
qed

lemma follows_generate: "follows s (snd (generate_content m p s))"
  by (simp add: follows_def generate_content_def cursor_ok_def trail_def)

lemma follows_sleep: "sleep d s = Inr s' \<Longrightarrow> follows s s'"
  by (auto simp: follows_def sleep_def cursor_ok_def trail_def split: if_splits)

lemma follows_generate_switch:
  "follows s (snd (switch_to_next_key (snd (generate_content m p s))))"
  by (simp add: follows_def switch_to_next_key_def generate_content_def cursor_ok_def
        trail_def)

lemma follows_attempts: "follows s (snd (attempts m x d n s))"
proof (induction n arbitrary: s)
  case 0
  show ?case by (simp add: follows_refl)
next
  case (Suc n)
  let ?p = "SectionPrompt x"
  obtain o1 s1 where g: "generate_content m ?p s = (o1, s1)" by (cases "generate_content m ?p s")
  have f1: "follows s s1" using follows_generate [of s m ?p] g by simp
  show ?case
  proof (cases o1)
    case (Returns r)
    show ?thesis
    proof (cases "generated_text r = []")
      case False
      with g Returns f1 show ?thesis by simp
    next
      case True
      show ?thesis
      proof (cases "sleep d s1")
        case (Inl e)
        with g Returns True f1 show ?thesis by simp
      next
        case (Inr s2)
        then have "follows s1 s2" by (rule follows_sleep)
        with f1 have "follows s s2" by (rule follows_trans)
        then have "follows s (snd (attempts m x d n s2))"
          using Suc.IH [of s2] by (rule follows_trans)
        with g Returns True Inr show ?thesis by simp
      qed
    qed
  next
    case (Raises msg)
    obtain b s2 where sw: "(if is_quota msg then switch_to_next_key s1 else (False, s1)) = (b, s2)"
      by (cases "if is_quota msg then switch_to_next_key s1 else (False, s1)")
    have f2: "follows s s2"
      using sw g f1 follows_generate_switch [of s m ?p] by (auto split: if_splits)
    show ?thesis
    proof (cases b)
      case True
      have "follows s (snd (attempts m x d n s2))"
        using f2 Suc.IH [of s2] by (rule follows_trans)
      with g Raises sw True show ?thesis by simp
    next
      case False
      show ?thesis
      proof (cases "sleep d s2")
        case (Inl e)
        with g Raises sw False f2 show ?thesis by simp
      next
        case (Inr s3)
        then have "follows s2 s3" by (rule follows_sleep)
        with f2 have "follows s s3" by (rule follows_trans)
        then have "follows s (snd (attempts m x d n s3))"
          using Suc.IH [of s3] by (rule follows_trans)
        with g Raises sw False Inr show ?thesis by simp
      qed
    qed
  qed
qed

lemma follows_summarize_section: "follows s (snd (summarize_section m x r d s))"
  by (simp add: summarize_section_def follows_refl follows_attempts)

lemma follows_summarize_loop: "follows s (snd (summarize_loop m secs acc s))"
proof (induction secs arbitrary: acc s)
  case Nil
  show ?case by (simp add: follows_refl)
next
  case (Cons sec secs)
  obtain h c where sec: "sec = (h, c)" by (cases sec)
  obtain r s1 where ss: "summarize_section m c 3 5 s = (r, s1)"
    by (cases "summarize_section m c 3 5 s")
  have f1: "follows s s1" using follows_summarize_section [of s m c 3 5] ss by simp
  show ?case
  proof (cases r)
    case (Inl e)
    with sec ss f1 show ?thesis by simp
  next
    case (Inr t)
    have "follows s (snd (summarize_loop m secs (acc @ [u ''## '' @ h @ [10] @ t @ [10]]) s1))"
      using f1 Cons.IH by (rule follows_trans)
    with sec ss Inr show ?thesis by simp
  qed
qed

lemma follows_summarize_text: "follows s (snd (summarize_text_by_sections m text s))"
proof -
  obtain r s1 where l: "summarize_loop m (split_into_sections text) [] s = (r, s1)"
    by (cases "summarize_loop m (split_into_sections text) [] s")
  have f1: "follows s s1"
    using follows_summarize_loop [of s m "split_into_sections text" "[]"] l by simp
  show ?thesis
  proof (cases r)
    case (Inl e)
    with l f1 show ?thesis by (simp add: summarize_text_by_sections_def)
  next
    case (Inr bs)
    let ?p = "FinalPrompt (join [10] bs)"
    have "follows s1 (snd (generate_content m ?p s1))" by (rule follows_generate)
    with f1 have "follows s (snd (generate_content m ?p s1))" by (rule follows_trans)
    with l Inr show ?thesis
      by (auto simp: summarize_text_by_sections_def Let_def split: outcome.splits prod.splits)
  qed
qed

lemma follows_summarize_document: "follows s (snd (summarize_document fs m path s))"
  by (simp add: summarize_document_def follows_refl follows_summarize_text split: sum.split)

lemma follows_steps:
  assumes "follows s s'"
  shows "steps_by_one (current_key_index s # trail s s')"
proof -
  have "trail s s' \<noteq> []" by (simp add: trail_def)
  then obtain ys where "trail s s' = current_key_index s # ys"
    using assms by (metis follows_def hd_Cons_tl)
  with assms show ?thesis by (simp add: follows_def)
qed

lemma trail_last: "trail s s' = butlast (trail s s') @ [current_key_index s']"
  by (simp add: trail_def)

lemma trail_bounds:
  assumes f: "follows s s'" and k: "k \<in> set (trail s s')"
  shows "current_key_index s \<le> k \<and> k \<le> current_key_index s'"
proof
  show "current_key_index s \<le> k"
    using follows_steps [OF f] k by (rule steps_by_one_lower)
next
  have st: "steps_by_one (butlast (trail s s') @ [current_key_index s'])"
    using f trail_last [of s s'] by (simp add: follows_def)
  from k trail_last [of s s']
  have "k \<in> set (butlast (trail s s')) \<or> k = current_key_index s'"
    by (metis Un_iff empty_iff insert_iff list.set(1) list.simps(15) set_append)
  then show "k \<le> current_key_index s'"
    using st by (auto dest: steps_by_one_upper)
qed

text \<open>
  Claim C6. The cursor starts at 0 inside the pool. \<open>switch_to_next_key\<close> either
  advances it by exactly one, when the next position is inside the pool, or refuses and
  leaves the state as it was. Along a whole run of \<open>summarize_document\<close> from a state
  whose cursor is in the pool, the cursor stays in the pool and never goes back, the log
  only grows, and the trail (cursor at the start, credential of each call made, cursor at
  the end) rises by at most one per step. Once the cursor is at the last credential it
  stays there, a further advancement is refused, and every call of the run uses the last
  credential.
\<close>

theorem cursor_invariant:
  assumes ok: "cursor_ok s" and run: "s' = snd (summarize_document fs m path s)"
  shows "current_key_index initial = 0 \<and> cursor_ok initial
    \<and> (case switch_to_next_key s of
         (advanced, s1) \<Rightarrow>
           advanced = (current_key_index s + 1 < length GEMINI_API_KEYS)
           \<and> s1 = (if advanced then s\<lparr>current_key_index := current_key_index s + 1\<rparr> else s)
           \<and> cursor_ok s1)
    \<and> cursor_ok s'
    \<and> current_key_index s \<le> current_key_index s'
    \<and> take (length (calls s)) (calls s') = calls s
    \<and> steps_by_one (current_key_index s # trail s s')
    \<and> (\<forall>k \<in> set (trail s s'). k < length GEMINI_API_KEYS)
    \<and> (current_key_index s + 1 = length GEMINI_API_KEYS \<longrightarrow>
          current_key_index s' = current_key_index s
          \<and> switch_to_next_key s' = (False, s')
          \<and> (\<forall>k \<in> set (trail s s'). k = length GEMINI_API_KEYS - 1))"
proof -
  have f: "follows s s'" unfolding run by (rule follows_summarize_document)
  have ok': "cursor_ok s'" using f ok by (simp add: follows_def)
  have last: "current_key_index s' \<in> set (trail s s')" by (simp add: trail_def)
  have mono: "current_key_index s \<le> current_key_index s'"
    using trail_bounds [OF f last] by simp
  have c1: "current_key_index initial = 0 \<and> cursor_ok initial"
    by (simp add: initial_def cursor_ok_def GEMINI_API_KEYS_def)
  have c2: "case switch_to_next_key s of
         (advanced, s1) \<Rightarrow>
           advanced = (current_key_index s + 1 < length GEMINI_API_KEYS)
           \<and> s1 = (if advanced then s\<lparr>current_key_index := current_key_index s + 1\<rparr> else s)
           \<and> cursor_ok s1"
    using ok by (simp add: switch_to_next_key_def cursor_ok_def)
  have c3: "take (length (calls s)) (calls s') = calls s" using f by (simp add: follows_def)
  have c4: "steps_by_one (current_key_index s # trail s s')" using f by (rule follows_steps)
  have c5: "\<forall>k \<in> set (trail s s'). k < length GEMINI_API_KEYS"
  proof
    fix k assume "k \<in> set (trail s s')"
    then have "k \<le> current_key_index s'" using trail_bounds [OF f] by simp
    with ok' show "k < length GEMINI_API_KEYS" by (simp add: cursor_ok_def)
  qed
  have c6: "current_key_index s + 1 = length GEMINI_API_KEYS \<longrightarrow>
          current_key_index s' = current_key_index s
          \<and> switch_to_next_key s' = (False, s')
          \<and> (\<forall>k \<in> set (trail s s'). k = length GEMINI_API_KEYS - 1)"
  proof
    assume e: "current_key_index s + 1 = length GEMINI_API_KEYS"
    have eq: "current_key_index s' = current_key_index s"
      using e mono ok' by (simp add: cursor_ok_def)
    have sw: "switch_to_next_key s' = (False, s')"
      using e eq by (simp add: switch_to_next_key_def)
    have "\<forall>k \<in> set (trail s s'). k = length GEMINI_API_KEYS - 1"
    proof
      fix k assume "k \<in> set (trail s s')"
      then have "current_key_index s \<le> k \<and> k \<le> current_key_index s'"
        by (rule trail_bounds [OF f])
      with e eq show "k = length GEMINI_API_KEYS - 1" by arith
    qed
    with eq sw show "current_key_index s' = current_key_index s
          \<and> switch_to_next_key s' = (False, s')
          \<and> (\<forall>k \<in> set (trail s s'). k = length GEMINI_API_KEYS - 1)" by simp
  qed
  from c1 c2 ok' mono c3 c4 c5 c6 show ?thesis by blast
qed

section \<open>No stage after extraction raises\<close>

lemma attempts_no_raise: "0 \<le> d \<Longrightarrow> \<exists>t. fst (attempts m x d n s) = Inr t"
proof (induction n arbitrary: s)
  case 0
  show ?case by simp
next
  case (Suc n)
  then show ?case
    by (auto simp: generate_content_def sleep_def switch_to_next_key_def Let_def
             split: outcome.splits prod.splits sum.splits bool.splits)
qed

lemma summarize_section_no_raise: "0 \<le> d \<Longrightarrow> \<exists>t. fst (summarize_section m x r d s) = Inr t"
  by (simp add: summarize_section_def attempts_no_raise)

lemma summarize_loop_no_raise: "\<exists>bs. fst (summarize_loop m secs acc s) = Inr bs"
proof (induction secs arbitrary: acc s)
  case Nil
  show ?case by simp
next
  case (Cons sec secs)
  obtain h c where sec: "sec = (h, c)" by (cases sec)
  obtain r s1 where ss: "summarize_section m c 3 5 s = (r, s1)"
    by (cases "summarize_section m c 3 5 s")
  obtain t where "r = Inr t"
    using summarize_section_no_raise [of 5 m c 3 s] ss by auto
  with sec ss Cons.IH show ?case by simp
qed

lemma summarize_text_no_raise: "\<exists>t. fst (summarize_text_by_sections m text s) = Inr t"
proof -
  obtain r s1 where l: "summarize_loop m (split_into_sections text) [] s = (r, s1)"
    by (cases "summarize_loop m (split_into_sections text) [] s")
  obtain bs where "r = Inr bs"
    using summarize_loop_no_raise [of m "split_into_sections text" "[]" s] l by auto
  with l show ?thesis
    by (auto simp: summarize_text_by_sections_def generate_content_def Let_def
             split: outcome.splits)
qed

section \<open>The merge stage\<close>

lemma summarize_loop_blocks:
  "summarize_loop m secs acc s =
     (Inr (acc @ fst (labeled_blocks m secs s)), snd (labeled_blocks m secs s))"
proof (induction secs arbitrary: acc s)
  case Nil
  show ?case by simp
next
  case (Cons sec secs)
  obtain h c where sec: "sec = (h, c)" by (cases sec)
  obtain r s1 where ss: "summarize_section m c 3 5 s = (r, s1)"
    by (cases "summarize_section m c 3 5 s")
  obtain t where r: "r = Inr t"
    using summarize_section_no_raise [of 5 m c 3 s] ss by auto
  obtain bs s2 where lb: "labeled_blocks m secs s1 = (bs, s2)"
    by (cases "labeled_blocks m secs s1")
  show ?case
    using sec ss r lb Cons.IH [of "acc @ [u ''## '' @ h @ [10] @ t @ [10]]" s1]
    by simp
qed

text \<open>
  Claim C3. When the final merge generation call raises or yields empty text,
  \<open>summarize_text_by_sections\<close> raises nothing and returns exactly the fallback: the
  labeled blocks \<open>"## {heading}\n{summary}\n"\<close> of the sections, in section order,
  joined by newlines.
\<close>

theorem merge_failure_falls_back:
  assumes "case merge_outcome m text s of Raises msg \<Rightarrow> True
           | Returns r \<Rightarrow> generated_text r = []"
  shows "fst (summarize_text_by_sections m text s)
           = Inr (join [10] (fst (labeled_blocks m (split_into_sections text) s)))"
proof -
  obtain bs s1 where lb: "labeled_blocks m (split_into_sections text) s = (bs, s1)"
    by (cases "labeled_blocks m (split_into_sections text) s")
  have loop: "summarize_loop m (split_into_sections text) [] s = (Inr bs, s1)"
    using lb by (simp add: summarize_loop_blocks)
  show ?thesis
    using assms lb loop
    by (auto simp: summarize_text_by_sections_def merge_outcome_def Let_def
             split: outcome.splits prod.splits)
qed

lemma two_sections_split:
  "split_into_sections two_sections
     = [(u ''Introduction'', []), (u ''SCOPE'', u ''a b c d e f g h i j'')]"
  by (simp add: two_sections_def split_eval)

lemma two_sections_blocks:
  "fst (labeled_blocks merge_refuses (split_into_sections two_sections) initial)
     = [u ''## Introduction\<newline>\<newline>'', u ''## SCOPE\<newline>S\<newline>'']"
  apply (simp add: two_sections_split)
  apply (simp add: summarize_section_def py_split_def strip_def u_def isspace_def
      merge_refuses_def generate_content_def generated_text_def numeral_3_eq_3
      split: prod.splits)
  done

theorem merge_failure_falls_back_witness:
  "(case merge_outcome merge_refuses two_sections initial of Raises msg \<Rightarrow> True
    | Returns r \<Rightarrow> generated_text r = [])
   \<and> fst (summarize_text_by_sections merge_refuses two_sections initial)
       = Inr (u ''## Introduction\<newline>\<newline>\<newline>## SCOPE\<newline>S\<newline>'')"
proof -
  have a: "case merge_outcome merge_refuses two_sections initial of Raises msg \<Rightarrow> True
           | Returns r \<Rightarrow> generated_text r = []"
    by (simp add: merge_outcome_def merge_refuses_def generate_content_def split: prod.splits)
  show ?thesis
    using a merge_failure_falls_back [OF a]
    by (simp add: two_sections_blocks u_def)
qed

text \<open>
  Claim C1. \<open>summarize_document\<close> raises exactly when \<open>read_document\<close> raises, and
  with the same error; when extraction succeeds the caller receives a summary string,
  whatever the model does on each call (text, empty output, quota error, other error).
\<close>

theorem extraction_is_the_only_failure:
  "case read_document fs path of
     Inl e \<Rightarrow> fst (summarize_document fs m path s) = Inl e
   | Inr text \<Rightarrow> \<exists>summary. fst (summarize_document fs m path s) = Inr summary"
  by (simp add: summarize_document_def summarize_text_no_raise split: sum.split)

theorem extraction_is_the_only_failure_witness:
  "read_document sample_fs (u ''notes.txt'') = Inr ten_words
   \<and> (\<exists>summary. fst (summarize_document sample_fs quota_once (u ''notes.txt'') initial)
         = Inr summary)"
proof -
  have a: "read_document sample_fs (u ''notes.txt'') = Inr ten_words"
    by (simp add: read_document_def splitext_ext_def lower_def sample_fs_def u_def
          is_upper_def)
  show ?thesis
    using a extraction_is_the_only_failure [where fs = sample_fs and path = "u ''notes.txt''"
        and m = quota_once and s = initial]
    by simp
qed

section \<open>A run of the whole pipeline\<close>

lemma ten_words_split: "split_into_sections ten_words = [(u ''Introduction'', ten_words)]"
  by (simp add: ten_words_def split_eval)

lemma sample_run:
  "snd (summarize_document sample_fs quota_once (u ''notes.txt'') initial)
     = \<lparr>current_key_index = 1,
        calls = [(0, SectionPrompt ten_words), (1, SectionPrompt ten_words),
                 (1, FinalPrompt (u ''## Introduction\<newline>fine\<newline>''))],
        slept = 0\<rparr>"
proof -
  have a: "read_document sample_fs (u ''notes.txt'') = Inr ten_words"
    by (simp add: read_document_def splitext_ext_def lower_def sample_fs_def u_def
          is_upper_def)
  have q: "is_quota (u ''429 Quota exceeded'')"
    by (simp add: is_quota_def lower_def u_def is_upper_def)
  have g: "generated_text [[u '' fine '']] = u ''fine''"
    by (simp add: generated_text_def strip_def u_def isspace_def)
  have ne: "u ''fine'' \<noteq> []" by (simp add: u_def)
  have sec: "summarize_section quota_once ten_words 3 5 initial
      = (Inr (u ''fine''),
         \<lparr>current_key_index = 1,
          calls = [(0, SectionPrompt ten_words), (1, SectionPrompt ten_words)], slept = 0\<rparr>)"
    using q g ne
    by (simp add: summarize_section_def ten_words_count numeral_3_eq_3 generate_content_def
          quota_once_def initial_def switch_to_next_key_def GEMINI_API_KEYS_def)
  let ?s1 = "\<lparr>current_key_index = 1,
          calls = [(0, SectionPrompt ten_words), (1, SectionPrompt ten_words)], slept = 0\<rparr>"
  let ?merged = "u ''## Introduction\<newline>fine\<newline>''"
  have str: "u ''## '' @ u ''Introduction'' @ [10] @ u ''fine'' @ [10] = ?merged"
    by (simp add: u_def)
  have loop: "summarize_loop quota_once (split_into_sections ten_words) [] initial
      = (Inr [?merged], ?s1)"
    by (simp add: ten_words_split sec str [simplified])
  have final: "generate_content quota_once (FinalPrompt ?merged) ?s1
      = (Returns [[u '' fine '']], ?s1\<lparr>calls := calls ?s1 @ [(1, FinalPrompt ?merged)]\<rparr>)"
    by (simp add: generate_content_def quota_once_def)
  have "summarize_text_by_sections quota_once ten_words initial
      = (Inr (u ''fine''), ?s1\<lparr>calls := calls ?s1 @ [(1, FinalPrompt ?merged)]\<rparr>)"
    using g ne by (simp add: summarize_text_by_sections_def loop final [simplified] Let_def)
  then show ?thesis
    by (simp add: summarize_document_def a)
qed

lemma initial_fields:
  "current_key_index initial = 0" "calls initial = []" "slept initial = 0"
  by (simp_all add: initial_def)

theorem cursor_invariant_witness:
  "cursor_ok initial
   \<and> current_key_index (snd (summarize_document sample_fs quota_once (u ''notes.txt'') initial)) = 1
   \<and> steps_by_one [0, 0, 1, 1, 1]
   \<and> trail initial (snd (summarize_document sample_fs quota_once (u ''notes.txt'') initial))
       = [0, 1, 1, 1]"
proof -
  have a: "cursor_ok initial"
    by (simp add: initial_def cursor_ok_def GEMINI_API_KEYS_def)
  show ?thesis
    using a cursor_invariant [OF a refl, where fs = sample_fs and m = quota_once
        and path = "u ''notes.txt''"]
    by (simp add: sample_run trail_def initial_fields)
qed

section \<open>Texts without headings\<close>

lemma re_split_from_nonempty: "re_split_from bol acc s \<noteq> []"
  by (induction bol acc s rule: re_split_from.induct)
     (auto simp: re_split_from.simps(2) split: option.splits)

lemma fallback_unreachable:
  "split_into_sections text = section_loop (u ''Introduction'') [] [] (re_split text)"
  by (simp add: split_into_sections_def re_split_def re_split_from_nonempty)

text \<open>
  Claim C7 says that a text without a heading match is split into its blank-line
  delimited paragraphs, headed "Section 1", "Section 2", and so on. The source has that
  branch, but \<open>pattern.split\<close> never returns an empty list (\<open>fallback_unreachable\<close>),
  so the branch is never taken: the two paragraphs below come back as one section headed
  "Introduction", where the branch would have given "Section 1" and "Section 2".
\<close>

theorem paragraphs_not_split:
  "heading_match two_paragraphs = None
   \<and> re_split two_paragraphs = [two_paragraphs]
   \<and> split_into_sections two_paragraphs = [(u ''Introduction'', two_paragraphs)]
   \<and> map (\<lambda>(i, sec). (u ''Section '' @ digits (i + 1), strip sec))
         (enumerate 0 (split_blank [] two_paragraphs))
       = [(u ''Section 1'', u ''first part''), (u ''Section 2'', u ''second part'')]"
  by (simp add: two_paragraphs_def split_eval digits.simps)



section \<open>Texts with headings\<close>

lemma strip_sandwich:
  assumes a: "\<forall>c \<in> set a. isspace c" and b: "\<forall>c \<in> set b. isspace c"
      and t: "t = [] \<or> (\<not> isspace (hd t) \<and> \<not> isspace (last t))"
  shows "strip (a @ t @ b) = t"
proof (cases "t = []")
  case True
  have d: "dropWhile isspace (a @ b) = []"
    using a b by (subst dropWhile_eq_Nil_conv) auto
  show ?thesis
    by (simp only: True strip_def append_Nil d rev.simps dropWhile.simps)
next
  case False
  with t have h: "\<not> isspace (hd t)" and l: "\<not> isspace (last t)" by simp_all
  have "dropWhile isspace (a @ t @ b) = dropWhile isspace (t @ b)"
    using a by (simp add: dropWhile_append2)
  also have "\<dots> = t @ b" using False h by (cases t) simp_all
  finally have d1: "dropWhile isspace (a @ t @ b) = t @ b" .
  have "dropWhile isspace (rev b @ rev t) = dropWhile isspace (rev t)"
    by (rule dropWhile_append2) (use b in simp)
  then have "dropWhile isspace (rev (t @ b)) = dropWhile isspace (rev t)"
    by (simp only: rev_append)
  also have "\<dots> = rev t"
    using False l by (cases "rev t") (simp_all add: last_rev [symmetric] hd_rev)
  finally have d2: "dropWhile isspace (rev (t @ b)) = rev t" .
  show ?thesis by (simp only: strip_def d1 d2 rev_rev_ident)
qed

lemma strip_edges: "strip s = [] \<or> (\<not> isspace (hd (strip s)) \<and> \<not> isspace (last (strip s)))"
proof (cases "strip s = []")
  case True
  then show ?thesis by simp
next
  case False
  let ?y = "dropWhile isspace s"
  let ?z = "dropWhile isspace (rev ?y)"
  have z: "?z \<noteq> []" using False by (simp add: strip_def)
  have l: "\<not> isspace (last (strip s))"
    using z hd_dropWhile [of isspace "rev ?y"] by (simp add: strip_def last_rev)
  have "rev ?y = takeWhile isspace (rev ?y) @ ?z" by simp
  then have "?y = rev ?z @ rev (takeWhile isspace (rev ?y))"
    by (metis rev_append rev_rev_ident)
  then have y: "?y = strip s @ rev (takeWhile isspace (rev ?y))" by (simp add: strip_def)
  have yne: "?y \<noteq> []" using y False by (metis append_is_Nil_conv)
  have "hd ?y = hd (strip s)" using y False by (metis hd_append2)
  moreover have "\<not> isspace (hd ?y)" using yne by (rule hd_dropWhile)
  ultimately show ?thesis using l by simp
qed

lemma strip_buffer: "strip (strip p @ [10]) = strip p"
  using strip_sandwich [of "[]" "[10]" "strip p"] strip_edges [of p]
  by (simp add: isspace_def)




lemma re_split_from_odd: "odd (length (re_split_from bol acc s))"
  by (induction bol acc s rule: re_split_from.induct)
     (auto simp: re_split_from.simps(2) split: option.splits)

lemma re_split_from_concat: "concat (re_split_from bol acc s) = rev acc @ s"
  by (induction bol acc s rule: re_split_from.induct)
     (auto simp: re_split_from.simps(2) split: option.splits)












text \<open>
  In general, a text without a heading match comes back as at most one section: the
  whole stripped text under "Introduction", or nothing when the stripped text begins with
  a match (which an indented line in capitals does). It is never cut into paragraphs.
\<close>

lemma single_piece:
  assumes "heading_pieces (re_split s) = []"
  shows "re_split s = [s]"
proof -
  have odd: "odd (length (re_split s))" by (simp add: re_split_def re_split_from_odd)
  have cat: "concat (re_split s) = s" by (simp add: re_split_def re_split_from_concat)
  obtain p where "re_split s = [p]"
    using assms odd by (cases "re_split s" rule: text_pieces.cases) auto
  with cat show ?thesis by simp
qed

lemma no_heading_sections:
  assumes "heading_pieces (re_split s) = []"
  shows "split_into_sections s
           = (if heading_match (strip s) = None then [(u ''Introduction'', strip s)] else [])"
  by (simp add: fallback_unreachable single_piece [OF assms] Let_def strip_buffer)

end
